theory Spec2Isabelle
  imports Main "HOL-Library.AList"
begin

section \<open>The layered storage core (src/layered-storage/core.ts)\<close>

subsection \<open>JavaScript containers\<close>

text \<open>
  A JavaScript \<^verbatim>\<open>Map\<close> keeps its entries in insertion order, one entry per key. It is
  modelled as an association list: \<^verbatim>\<open>m.get(k)\<close> is \<^term>\<open>map_of m k\<close> (\<^verbatim>\<open>undefined\<close> is
  \<^term>\<open>None\<close>), \<^verbatim>\<open>m.has(k)\<close> is \<^term>\<open>map_of m k \<noteq> None\<close>, \<^verbatim>\<open>m.set(k, v)\<close> is
  \<^term>\<open>AList.update k v m\<close> (the value is replaced in place when the key is there, the
  entry is appended otherwise) and \<^verbatim>\<open>m.delete(k)\<close> is \<^term>\<open>AList.delete k m\<close>.
  A map held inside another map is an object that is mutated in place; the model writes
  the changed inner map back at its key with \<^term>\<open>AList.map_entry\<close>.
\<close>

type_synonym ('a, 'b) jsmap = "('a \<times> 'b) list"

text \<open>A JavaScript \<^verbatim>\<open>Set\<close> is a list without duplicates in insertion order.\<close>

definition set_add :: "'a \<Rightarrow> 'a list \<Rightarrow> 'a list" where
  "set_add x xs = (if x \<in> set xs then xs else xs @ [x])"

text \<open>
  \<^verbatim>\<open>const reverseNumeric = (a, b) => b - a\<close>, and \<^verbatim>\<open>Array.prototype.sort\<close> with a
  comparator: a stable sort that puts \<open>x\<close> before \<open>y\<close> when the comparator is negative.
\<close>

definition reverseNumeric :: "int \<Rightarrow> int \<Rightarrow> int" where
  "reverseNumeric a b = b - a"

fun insert_by :: "('a \<Rightarrow> 'a \<Rightarrow> int) \<Rightarrow> 'a \<Rightarrow> 'a list \<Rightarrow> 'a list" where
  "insert_by cmp x [] = [x]"
| "insert_by cmp x (y # ys) =
     (if cmp x y \<le> 0 then x # y # ys else y # insert_by cmp x ys)"

definition sort_by :: "('a \<Rightarrow> 'a \<Rightarrow> int) \<Rightarrow> 'a list \<Rightarrow> 'a list" where
  "sort_by cmp xs = foldr (insert_by cmp) xs []"

subsection \<open>The state of a LayeredStorageCore\<close>

text \<open>
  A segment is an opaque identifier; \<^verbatim>\<open>this.monolithic\<close> is a symbol of its own, a public
  field that callers pass as a segment like any other.
\<close>

datatype segment = Monolithic | Seg nat

record ('k, 'v) core =
  data :: "(int, (segment, ('k, 'v) jsmap) jsmap) jsmap"
  layers :: "int list"
  segments :: "segment list"
  topLevelCache :: "(segment, ('k, 'v) jsmap) jsmap"

definition newCore :: "('k, 'v) core" where
  "newCore = \<lparr>data = [], layers = [], segments = [], topLevelCache = []\<rparr>"

subsection \<open>The method \<^verbatim>\<open>_getLSData\<close>\<close>

text \<open>
  Returns the key-value map of the segment on the layer together with the state, in which
  the layer and the segment have been created when they were missing.
\<close>

definition getLSData ::
  "int \<Rightarrow> segment \<Rightarrow> ('k, 'v) core \<Rightarrow> ('k, 'v) jsmap \<times> ('k, 'v) core" where
  "getLSData layer segment st =
     (let (lData, st1) =
            (case map_of (data st) layer of
               None \<Rightarrow>
                 (let d = AList.update layer [] (data st)
                  in ([], st\<lparr>data := d, layers := sort_by reverseNumeric (map fst d)\<rparr>))
             | Some ld \<Rightarrow> (ld, st))
      in case map_of lData segment of
           None \<Rightarrow>
             ([], st1\<lparr>data := AList.map_entry layer (AList.update segment []) (data st1),
                      segments := set_add segment (segments st1)\<rparr>)
         | Some lsData \<Rightarrow> (lsData, st1))"

subsection \<open>The method \<^verbatim>\<open>_updateCache\<close>\<close>

text \<open>\<^verbatim>\<open>sCache.set(key, value)\<close> on the cache map of the segment.\<close>

definition cacheSet :: "segment \<Rightarrow> 'k \<Rightarrow> 'v \<Rightarrow> ('k, 'v) core \<Rightarrow> ('k, 'v) core" where
  "cacheSet segment key v st =
     st\<lparr>topLevelCache := AList.map_entry segment (AList.update key v) (topLevelCache st)\<rparr>"

text \<open>
  The inner loop over the layers, from the highest priority down; \<^verbatim>\<open>continue segmentsLoop\<close>
  ends it at the first hit.
\<close>

fun searchLayers ::
  "'k \<Rightarrow> segment \<Rightarrow> int list \<Rightarrow> ('k, 'v) core \<Rightarrow> ('k, 'v) core" where
  "searchLayers key segment [] st = st"
| "searchLayers key segment (layer # rest) st =
     (let (lsData, st1) = getLSData layer segment st
      in case map_of lsData key of
           Some v \<Rightarrow> cacheSet segment key v st1
         | None \<Rightarrow>
             (let (lmData, st2) = getLSData layer Monolithic st1
              in case map_of lmData key of
                   Some v \<Rightarrow> cacheSet segment key v st2
                 | None \<Rightarrow> searchLayers key segment rest st2))"

text \<open>The body of the outer loop for one segment.\<close>

definition updateSegment :: "'k \<Rightarrow> segment \<Rightarrow> ('k, 'v) core \<Rightarrow> ('k, 'v) core" where
  "updateSegment key segment st =
     (let st1 = (case map_of (topLevelCache st) segment of
                   Some sCache \<Rightarrow> st
                 | None \<Rightarrow> st\<lparr>topLevelCache := AList.update segment [] (topLevelCache st)\<rparr>);
          st2 = st1\<lparr>topLevelCache :=
                      AList.map_entry segment (AList.delete key) (topLevelCache st1)\<rparr>
      in searchLayers key segment (layers st2) st2)"

lemma segments_getLSData:
  "segments (snd (getLSData layer segment st)) = segments st \<or>
   segments (snd (getLSData layer segment st)) = set_add segment (segments st)"
  by (simp add: getLSData_def Let_def split: option.splits)

lemma segments_cacheSet [simp]: "segments (cacheSet segment key v st) = segments st"
  by (simp add: cacheSet_def)

lemma set_add_idem: "x \<in> set xs \<Longrightarrow> set_add x xs = xs"
  by (simp add: set_add_def)

lemma set_add_mem: "x \<in> set (set_add x xs)"
  by (simp add: set_add_def)

lemma set_add_mono: "y \<in> set xs \<Longrightarrow> y \<in> set (set_add x xs)"
  by (simp add: set_add_def)

lemma segments_searchLayers:
  "segment \<in> set (segments st) \<Longrightarrow>
   segments (searchLayers key segment ls st) = segments st \<or>
   segments (searchLayers key segment ls st) = set_add Monolithic (segments st)"
proof (induction ls arbitrary: st)
  case Nil
  then show ?case by simp
next
  case (Cons layer rest)
  obtain lsData st1 where g1: "getLSData layer segment st = (lsData, st1)"
    by (cases "getLSData layer segment st")
  obtain lmData st2 where g2: "getLSData layer Monolithic st1 = (lmData, st2)"
    by (cases "getLSData layer Monolithic st1")
  from segments_getLSData [of layer segment st] g1 Cons.prems
  have s1: "segments st1 = segments st"
    by (auto simp: set_add_idem)
  from segments_getLSData [of layer Monolithic st1] g2 s1
  have s2: "segments st2 = segments st \<or> segments st2 = set_add Monolithic (segments st)"
    by auto
  have mem2: "segment \<in> set (segments st2)"
    using s2 Cons.prems by (auto simp: set_add_mono)
  have idem: "set_add Monolithic (set_add Monolithic (segments st)) = set_add Monolithic (segments st)"
    by (simp add: set_add_idem set_add_mem)
  from Cons.IH [OF mem2] s2 idem
  have rec: "segments (searchLayers key segment rest st2) = segments st \<or>
             segments (searchLayers key segment rest st2) = set_add Monolithic (segments st)"
    by auto
  show ?case
    using g1 g2 s1 s2 rec by (simp split: option.splits)
qed

lemma segments_updateSegment:
  "segment \<in> set (segments st) \<Longrightarrow>
   segments (updateSegment key segment st) = segments st \<or>
   segments (updateSegment key segment st) = set_add Monolithic (segments st)"
proof -
  assume mem: "segment \<in> set (segments st)"
  define st2 where "st2 =
     (let st1 = (case map_of (topLevelCache st) segment of
                   Some sCache \<Rightarrow> st
                 | None \<Rightarrow> st\<lparr>topLevelCache := AList.update segment [] (topLevelCache st)\<rparr>)
      in st1\<lparr>topLevelCache :=
                      AList.map_entry segment (AList.delete key) (topLevelCache st1)\<rparr>)"
  have seg2: "segments st2 = segments st"
    by (simp add: st2_def Let_def split: option.splits)
  have eq: "updateSegment key segment st = searchLayers key segment (layers st2) st2"
    by (simp add: updateSegment_def st2_def Let_def)
  from segments_searchLayers [of segment st2 key "layers st2"] mem seg2 eq
  show ?thesis by simp
qed

text \<open>
  The outer loop \<^verbatim>\<open>for (const segment of this._segments)\<close>. The iteration of a
  JavaScript \<^verbatim>\<open>Set\<close> also visits the elements added while it runs (here the monolithic
  segment, registered by \<^verbatim>\<open>_getLSData\<close>), so the loop reads the set again at each index.
\<close>

function updateCacheFrom :: "'k \<Rightarrow> nat \<Rightarrow> ('k, 'v) core \<Rightarrow> ('k, 'v) core" where
  "updateCacheFrom key i st =
     (if i < length (segments st)
      then updateCacheFrom key (Suc i) (updateSegment key (segments st ! i) st)
      else st)"
  by pat_completeness auto
termination
proof (relation "measure (\<lambda>(key, i, st).
         length (segments st) + (if Monolithic \<in> set (segments st) then 0 else 1) - i)")
  show "wf (measure (\<lambda>(key :: 'k, i, st :: ('k, 'v) core).
         length (segments st) + (if Monolithic \<in> set (segments st) then 0 else 1) - i))"
    by simp
next
  fix key :: 'k and i :: nat and st :: "('k, 'v) core"
  assume lt: "i < length (segments st)"
  then have mem: "segments st ! i \<in> set (segments st)" by simp
  from segments_updateSegment [OF mem, of key]
  show "((key, Suc i, updateSegment key (segments st ! i) st), (key, i, st))
        \<in> measure (\<lambda>(key, i, st).
         length (segments st) + (if Monolithic \<in> set (segments st) then 0 else 1) - i)"
    using lt by (auto simp: set_add_def)
qed

declare updateCacheFrom.simps [simp del]

definition updateCache :: "'k \<Rightarrow> ('k, 'v) core \<Rightarrow> ('k, 'v) core" where
  "updateCache key st = updateCacheFrom key 0 st"

subsection \<open>The public operations\<close>

definition get :: "segment \<Rightarrow> 'k \<Rightarrow> ('k, 'v) core \<Rightarrow> 'v option" where
  "get segment key st =
     (case map_of (topLevelCache st) segment of
        Some sData \<Rightarrow> map_of sData key
      | None \<Rightarrow>
          (case map_of (topLevelCache st) Monolithic of
             None \<Rightarrow> None
           | Some sData \<Rightarrow> map_of sData key))"

definition has :: "segment \<Rightarrow> 'k \<Rightarrow> ('k, 'v) core \<Rightarrow> bool" where
  "has segment key st =
     (case map_of (topLevelCache st) segment of
        None \<Rightarrow> False
      | Some sData \<Rightarrow> map_of sData key \<noteq> None)"

definition set_entry ::
  "int \<Rightarrow> segment \<Rightarrow> 'k \<Rightarrow> 'v \<Rightarrow> ('k, 'v) core \<Rightarrow> ('k, 'v) core" where
  "set_entry layer segment key v st =
     (let (lsData, st1) = getLSData layer segment st;
          st2 = st1\<lparr>data := AList.map_entry layer
                    (AList.map_entry segment (AList.update key v)) (data st1)\<rparr>
      in updateCache key st2)"

definition delete_entry ::
  "int \<Rightarrow> segment \<Rightarrow> 'k \<Rightarrow> ('k, 'v) core \<Rightarrow> ('k, 'v) core" where
  "delete_entry layer segment key st =
     (let (lsData, st1) = getLSData layer segment st;
          st2 = st1\<lparr>data := AList.map_entry layer
                    (AList.map_entry segment (AList.delete key)) (data st1)\<rparr>
      in updateCache key st2)"

definition deleteSegmentData :: "segment \<Rightarrow> ('k, 'v) core \<Rightarrow> ('k, 'v) core" where
  "deleteSegmentData segment st =
     st\<lparr>data := map_ran (\<lambda>layer lData. AList.delete segment lData) (data st),
        topLevelCache := AList.delete segment (topLevelCache st),
        segments := removeAll segment (segments st)\<rparr>"

subsection \<open>The interface as calls\<close>

text \<open>
  The public methods as one datatype of calls; \<open>exec\<close> returns what the method returns and
  the state it leaves. \<^verbatim>\<open>get\<close> and \<^verbatim>\<open>has\<close> assign to no field and call no
  method that does, so they hand the state on as it is.
\<close>

datatype ('k, 'v) call =
    Get segment 'k
  | Has segment 'k
  | Set int segment 'k 'v
  | Delete int segment 'k
  | DeleteSegmentData segment

datatype 'v result = Value "'v option" | Bool bool | Void

fun exec :: "('k, 'v) call \<Rightarrow> ('k, 'v) core \<Rightarrow> 'v result \<times> ('k, 'v) core" where
  "exec (Get segment key) st = (Value (get segment key st), st)"
| "exec (Has segment key) st = (Bool (has segment key st), st)"
| "exec (Set layer segment key v) st = (Void, set_entry layer segment key v st)"
| "exec (Delete layer segment key) st = (Void, delete_entry layer segment key st)"
| "exec (DeleteSegmentData segment) st = (Void, deleteSegmentData segment st)"

text \<open>The state after a sequence of calls on a new core.\<close>

definition run :: "('k, 'v) call list \<Rightarrow> ('k, 'v) core" where
  "run calls = foldl (\<lambda>st c. snd (exec c st)) newCore calls"

subsection \<open>Reading the Raw Store\<close>

text \<open>The entry of the Raw Store for a layer, a segment and a key, if there is one.\<close>

definition rawGet :: "('k, 'v) core \<Rightarrow> int \<Rightarrow> segment \<Rightarrow> 'k \<Rightarrow> 'v option" where
  "rawGet st layer segment key =
     (case map_of (data st) layer of
        None \<Rightarrow> None
      | Some lData \<Rightarrow>
          (case map_of lData segment of
             None \<Rightarrow> None
           | Some lsData \<Rightarrow> map_of lsData key))"

text \<open>The entry of the Top-Level Cache for a segment and a key, if there is one.\<close>

definition cacheGet :: "('k, 'v) core \<Rightarrow> segment \<Rightarrow> 'k \<Rightarrow> 'v option" where
  "cacheGet st segment key =
     (case map_of (topLevelCache st) segment of
        None \<Rightarrow> None
      | Some sData \<Rightarrow> map_of sData key)"

text \<open>
  The resolution of the specification, written from its words: walk the layers from the
  highest to the lowest priority; at each layer check the segment's data, then the
  monolithic segment's data; return the first hit, or nothing.
\<close>

fun resolve_layers ::
  "(int \<Rightarrow> segment \<Rightarrow> 'k \<Rightarrow> 'v option) \<Rightarrow> int list \<Rightarrow> segment \<Rightarrow> 'k \<Rightarrow> 'v option" where
  "resolve_layers raw [] segment key = None"
| "resolve_layers raw (layer # rest) segment key =
     (case raw layer segment key of
        Some v \<Rightarrow> Some v
      | None \<Rightarrow>
          (case raw layer Monolithic key of
             Some v \<Rightarrow> Some v
           | None \<Rightarrow> resolve_layers raw rest segment key))"

definition resolve_spec :: "('k, 'v) core \<Rightarrow> segment \<Rightarrow> 'k \<Rightarrow> 'v option" where
  "resolve_spec st segment key =
     resolve_layers (rawGet st) (rev (sort (map fst (data st)))) segment key"

subsection \<open>Validator registration\<close>

text \<open>
  Modelled from the spec: \<^verbatim>\<open>setValidators\<close> of the class \<^verbatim>\<open>LayeredStorage\<close>, whose file
  (layered-storage.ts) is not among the sources; only its test calls it. Registering
  validators for a key that has some, without the replace directive, fails with
  \<open>DuplicateValidatorRegistration\<close> at once, before any interaction with the storage;
  otherwise the validators become the key's validators. The result pairs the error thrown,
  if any, with the storage as the call leaves it.
\<close>

datatype error = DuplicateValidatorRegistration

record ('k, 'v, 'vd) storage =
  validators :: "('k, 'vd list) jsmap"
  core :: "('k, 'v) core"

definition newStorage :: "('k, 'v, 'vd) storage" where
  "newStorage = \<lparr>validators = [], core = newCore\<rparr>"

definition setValidators ::
  "'k \<Rightarrow> 'vd list \<Rightarrow> bool \<Rightarrow> ('k, 'v, 'vd) storage \<Rightarrow> error option \<times> ('k, 'v, 'vd) storage" where
  "setValidators key vs replace st =
     (if \<not> replace \<and> map_of (validators st) key \<noteq> None
      then (Some DuplicateValidatorRegistration, st)
      else (None, st\<lparr>validators := AList.update key vs (validators st)\<rparr>))"

subsection \<open>Invariants of the state\<close>

text \<open>The segment has a key-value map on the layer.\<close>

definition hasLSData :: "('k, 'v) core \<Rightarrow> int \<Rightarrow> segment \<Rightarrow> bool" where
  "hasLSData st layer segment =
     (case map_of (data st) layer of
        None \<Rightarrow> False
      | Some lData \<Rightarrow> map_of lData segment \<noteq> None)"

text \<open>
  What every state reached by the public operations satisfies: the layers of the Raw Store
  are distinct, the layer list is the sorted list of them, and every segment with a map
  on some layer is registered.
\<close>

definition wellformed :: "('k, 'v) core \<Rightarrow> bool" where
  "wellformed st \<longleftrightarrow>
     distinct (map fst (data st)) \<and>
     layers st = sort_by reverseNumeric (map fst (data st)) \<and>
     (\<forall>layer segment. hasLSData st layer segment \<longrightarrow> segment \<in> set (segments st))"

text \<open>
  The cache entry of the segment for the key is what the walk over the layer list finds
  in the Raw Store.
\<close>

definition cacheOk :: "('k, 'v) core \<Rightarrow> segment \<Rightarrow> 'k \<Rightarrow> bool" where
  "cacheOk st segment key \<longleftrightarrow>
     (\<exists>m. map_of (topLevelCache st) segment = Some m \<and>
          map_of m key = resolve_layers (rawGet st) (layers st) segment key)"

text \<open>The state in which the inner loop starts.\<close>

definition prepared :: "'k \<Rightarrow> segment \<Rightarrow> ('k, 'v) core \<Rightarrow> ('k, 'v) core" where
  "prepared key segment st =
     (let st1 = (case map_of (topLevelCache st) segment of
                   Some sCache \<Rightarrow> st
                 | None \<Rightarrow> st\<lparr>topLevelCache := AList.update segment [] (topLevelCache st)\<rparr>)
      in st1\<lparr>topLevelCache :=
                AList.map_entry segment (AList.delete key) (topLevelCache st1)\<rparr>)"


section \<open>Properties of the containers\<close>

lemma map_fst_map_entry [simp]: "map fst (AList.map_entry k f xs) = map fst xs"
  by (induction xs) auto

lemma sort_by_Nil [simp]: "sort_by cmp [] = []"
  by (simp add: sort_by_def)

lemma sort_by_Cons [simp]: "sort_by cmp (x # xs) = insert_by cmp x (sort_by cmp xs)"
  by (simp add: sort_by_def)

lemma set_insert_by [simp]: "set (insert_by cmp x xs) = insert x (set xs)"
  by (induction xs) auto

lemma set_sort_by [simp]: "set (sort_by cmp xs) = set xs"
  by (induction xs) auto

lemma distinct_insert_by [simp]:
  "distinct (insert_by cmp x xs) = (x \<notin> set xs \<and> distinct xs)"
  by (induction xs) auto

lemma distinct_sort_by [simp]: "distinct (sort_by cmp xs) = distinct xs"
  by (induction xs) auto

lemma sorted_insert_by:
  "sorted_wrt (\<ge>) xs \<Longrightarrow> sorted_wrt (\<ge>) (insert_by reverseNumeric x xs)"
  by (induction xs) (auto simp: reverseNumeric_def)

lemma sorted_sort_by: "sorted_wrt (\<ge>) (sort_by reverseNumeric xs)"
  by (induction xs) (auto simp: sorted_insert_by)

lemma strict_of_distinct:
  "sorted_wrt (\<ge>) (xs :: int list) \<Longrightarrow> distinct xs \<Longrightarrow> sorted_wrt (>) xs"
  by (induction xs) (auto simp: less_le)

lemma strict_sorted_sort_by:
  "distinct xs \<Longrightarrow> sorted_wrt (>) (sort_by reverseNumeric xs)"
  by (simp add: strict_of_distinct sorted_sort_by)

lemma sort_by_eq_rev_sort:
  assumes "distinct xs"
  shows "sort_by reverseNumeric xs = rev (sort xs)"
proof -
  have "sorted (rev (sort_by reverseNumeric xs))"
    using sorted_sort_by [of xs] by (simp add: sorted_wrt_rev)
  moreover have "distinct (rev (sort_by reverseNumeric xs))"
    using assms by simp
  moreover have "set (rev (sort_by reverseNumeric xs)) = set (sort xs)"
    by simp
  ultimately have "rev (sort_by reverseNumeric xs) = sort xs"
    using assms by (intro sorted_distinct_set_unique) simp_all
  then show ?thesis
    by (metis rev_rev_ident)
qed

section \<open>Properties of \<^verbatim>\<open>_getLSData\<close>\<close>

lemma rawGet_getLSData [simp]: "rawGet (snd (getLSData layer segment st)) = rawGet st"
  by (intro ext)
     (auto simp: rawGet_def getLSData_def Let_def update_conv' map_of_map_entry
           split: option.splits)

lemma fst_getLSData: "map_of (fst (getLSData layer segment st)) key = rawGet st layer segment key"
  by (auto simp: rawGet_def getLSData_def Let_def split: option.splits)

lemma topLevelCache_getLSData [simp]:
  "topLevelCache (snd (getLSData layer segment st)) = topLevelCache st"
  by (simp add: getLSData_def Let_def split: option.splits)

lemma map_of_eq_None_keys: "(map_of xs k = None) = (k \<notin> set (map fst xs))"
  by (simp add: map_of_eq_None_iff)

lemma map_of_Some_key: "map_of xs k = Some v \<Longrightarrow> k \<in> fst ` set xs"
  by (metis domI dom_map_of_conv_image_fst)

lemma keys_getLSData:
  "map fst (data (snd (getLSData layer segment st))) =
     (if layer \<in> set (map fst (data st)) then map fst (data st) else map fst (data st) @ [layer])"
  by (auto simp: getLSData_def Let_def update_keys map_of_eq_None_keys
           split: option.splits dest: map_of_Some_key)

lemma layers_getLSData:
  "layers (snd (getLSData layer segment st)) =
     (if layer \<in> set (map fst (data st)) then layers st
      else sort_by reverseNumeric (map fst (data st) @ [layer]))"
  by (auto simp: getLSData_def Let_def update_keys map_of_eq_None_keys
           split: option.splits dest: map_of_Some_key)

lemma segments_getLSData_mem:
  "set (segments st) \<subseteq> set (segments (snd (getLSData layer segment st)))"
  by (auto simp: getLSData_def Let_def set_add_def split: option.splits)

lemma data_getLSData_has:
  "\<exists>lData lsData. map_of (data (snd (getLSData layer segment st))) layer = Some lData \<and>
       map_of lData segment = Some lsData"
  by (auto simp: getLSData_def Let_def update_conv' map_of_map_entry split: option.splits)

lemma getLSData_pair:
  assumes "getLSData layer segment st = (m, st')"
  shows "rawGet st' = rawGet st"
    and "map_of m key = rawGet st layer segment key"
    and "topLevelCache st' = topLevelCache st"
    and "layer \<in> set (map fst (data st)) \<Longrightarrow> map fst (data st') = map fst (data st)"
    and "layer \<in> set (map fst (data st)) \<Longrightarrow> layers st' = layers st"
    and "set (segments st) \<subseteq> set (segments st')"
proof -
  have m: "m = fst (getLSData layer segment st)" and st': "st' = snd (getLSData layer segment st)"
    using assms by simp_all
  show "rawGet st' = rawGet st" by (simp add: st')
  show "map_of m key = rawGet st layer segment key" by (simp add: m fst_getLSData)
  show "topLevelCache st' = topLevelCache st" by (simp add: st')
  show "layer \<in> set (map fst (data st)) \<Longrightarrow> map fst (data st') = map fst (data st)"
    by (simp add: st' keys_getLSData)
  show "layer \<in> set (map fst (data st)) \<Longrightarrow> layers st' = layers st"
    by (simp add: st' layers_getLSData)
  show "set (segments st) \<subseteq> set (segments st')"
    unfolding st' by (rule segments_getLSData_mem)
qed


section \<open>Properties of \<^verbatim>\<open>_updateCache\<close>\<close>

lemma rawGet_cacheSet [simp]: "rawGet (cacheSet segment key v st) = rawGet st"
  by (intro ext) (simp add: rawGet_def cacheSet_def)

lemma data_cacheSet [simp]: "data (cacheSet segment key v st) = data st"
  by (simp add: cacheSet_def)

lemma layers_cacheSet [simp]: "layers (cacheSet segment key v st) = layers st"
  by (simp add: cacheSet_def)

lemma cache_cacheSet:
  "map_of (topLevelCache (cacheSet segment key v st)) s =
     (if s = segment then map_option (AList.update key v) (map_of (topLevelCache st) segment)
      else map_of (topLevelCache st) s)"
  by (simp add: cacheSet_def map_of_map_entry split: option.splits)

lemma rawGet_searchLayers [simp]: "rawGet (searchLayers key segment ls st) = rawGet st"
  by (induction ls arbitrary: st)
     (auto split: prod.splits option.splits simp: getLSData_pair(1))

lemma keys_layers_searchLayers:
  "set ls \<subseteq> set (map fst (data st)) \<Longrightarrow>
   map fst (data (searchLayers key segment ls st)) = map fst (data st) \<and>
   layers (searchLayers key segment ls st) = layers st"
proof (induction ls arbitrary: st)
  case Nil
  then show ?case by simp
next
  case (Cons layer rest)
  obtain lsData st1 where g1: "getLSData layer segment st = (lsData, st1)"
    by (cases "getLSData layer segment st")
  obtain lmData st2 where g2: "getLSData layer Monolithic st1 = (lmData, st2)"
    by (cases "getLSData layer Monolithic st1")
  have mem: "layer \<in> set (map fst (data st))"
    using Cons.prems by simp
  have k1: "map fst (data st1) = map fst (data st)" and l1: "layers st1 = layers st"
    using getLSData_pair(4,5) [OF g1 mem] by simp_all
  have k2: "map fst (data st2) = map fst (data st)" and l2: "layers st2 = layers st"
    using getLSData_pair(4,5) [OF g2] mem k1 l1 by simp_all
  have "set rest \<subseteq> set (map fst (data st2))"
    using Cons.prems k2 by simp
  from Cons.IH [OF this] k2 l2
  have rec: "map fst (data (searchLayers key segment rest st2)) = map fst (data st) \<and>
             layers (searchLayers key segment rest st2) = layers st"
    by simp
  show ?case
    using g1 g2 k1 l1 k2 l2 rec by (simp split: option.splits)
qed

lemma cache_other_searchLayers:
  "s \<noteq> segment \<Longrightarrow>
   map_of (topLevelCache (searchLayers key segment ls st)) s = map_of (topLevelCache st) s"
  by (induction ls arbitrary: st)
     (auto split: prod.splits option.splits simp: getLSData_pair(3) cache_cacheSet)

lemma cache_searchLayers:
  assumes "map_of (topLevelCache st) segment = Some m" and "map_of m key = None"
  shows "\<exists>m'. map_of (topLevelCache (searchLayers key segment ls st)) segment = Some m' \<and>
              map_of m' key = resolve_layers (rawGet st) ls segment key \<and>
              (\<forall>k. k \<noteq> key \<longrightarrow> map_of m' k = map_of m k)"
  using assms
proof (induction ls arbitrary: st)
  case Nil
  then show ?case by simp
next
  case (Cons layer rest)
  obtain lsData st1 where g1: "getLSData layer segment st = (lsData, st1)"
    by (cases "getLSData layer segment st")
  obtain lmData st2 where g2: "getLSData layer Monolithic st1 = (lmData, st2)"
    by (cases "getLSData layer Monolithic st1")
  note f1 = getLSData_pair(1,2,3) [OF g1]
  note f2 = getLSData_pair(1,2,3) [OF g2]
  show ?case
  proof (cases "rawGet st layer segment key")
    case (Some v)
    then show ?thesis
      using g1 f1 Cons.prems by (simp add: cache_cacheSet update_conv')
  next
    case None
    note own = this
    show ?thesis
    proof (cases "rawGet st layer Monolithic key")
      case (Some v)
      then show ?thesis
        using g1 g2 f1 f2 own Cons.prems by (simp add: cache_cacheSet update_conv')
    next
      case None
      have c2: "map_of (topLevelCache st2) segment = Some m"
        using f1 f2 Cons.prems by simp
      from Cons.IH [OF c2 Cons.prems(2)] f1 f2
      have rec: "\<exists>m'. map_of (topLevelCache (searchLayers key segment rest st2)) segment = Some m' \<and>
              map_of m' key = resolve_layers (rawGet st) rest segment key \<and>
              (\<forall>k. k \<noteq> key \<longrightarrow> map_of m' k = map_of m k)"
        by simp
      show ?thesis
        using g1 g2 f1 f2 own None rec by simp
    qed
  qed
qed

lemma updateSegment_prepared:
  "updateSegment key segment st =
     searchLayers key segment (layers (prepared key segment st)) (prepared key segment st)"
  by (simp add: updateSegment_def prepared_def Let_def)

lemma prepared_fields [simp]:
  "data (prepared key segment st) = data st"
  "layers (prepared key segment st) = layers st"
  "segments (prepared key segment st) = segments st"
  by (simp_all add: prepared_def Let_def split: option.splits)

lemma rawGet_prepared [simp]: "rawGet (prepared key segment st) = rawGet st"
  by (intro ext) (simp add: rawGet_def)

lemma cache_prepared:
  "map_of (topLevelCache (prepared key segment st)) s =
     (if s = segment
      then Some (AList.delete key (case map_of (topLevelCache st) segment of
                                     None \<Rightarrow> [] | Some m \<Rightarrow> m))
      else map_of (topLevelCache st) s)"
  by (simp add: prepared_def Let_def map_of_map_entry update_conv' split: option.splits)

lemma rawGet_updateSegment [simp]: "rawGet (updateSegment key segment st) = rawGet st"
  by (simp add: updateSegment_prepared)

lemma keys_layers_updateSegment:
  "set (layers st) \<subseteq> set (map fst (data st)) \<Longrightarrow>
   map fst (data (updateSegment key segment st)) = map fst (data st) \<and>
   layers (updateSegment key segment st) = layers st"
  using keys_layers_searchLayers [of "layers st" "prepared key segment st" key segment]
  by (simp add: updateSegment_prepared)

lemma cache_other_updateSegment:
  "s \<noteq> segment \<Longrightarrow>
   map_of (topLevelCache (updateSegment key segment st)) s = map_of (topLevelCache st) s"
  by (simp add: updateSegment_prepared cache_other_searchLayers cache_prepared)

lemma cache_updateSegment:
  "\<exists>m'. map_of (topLevelCache (updateSegment key segment st)) segment = Some m' \<and>
        map_of m' key = resolve_layers (rawGet st) (layers st) segment key \<and>
        (\<forall>k. k \<noteq> key \<longrightarrow> map_of m' k =
            (case map_of (topLevelCache st) segment of None \<Rightarrow> None | Some m \<Rightarrow> map_of m k))"
proof -
  let ?p = "prepared key segment st"
  let ?m = "AList.delete key (case map_of (topLevelCache st) segment of
                                 None \<Rightarrow> [] | Some m \<Rightarrow> m)"
  have a: "map_of (topLevelCache ?p) segment = Some ?m"
    by (simp add: cache_prepared)
  have b: "map_of ?m key = None"
    by (simp add: delete_conv')
  from cache_searchLayers [OF a b, of "layers ?p"]
  show ?thesis
    by (auto simp: updateSegment_prepared delete_conv' split: option.splits)
qed

lemma cacheOk_updateSegment_self:
  assumes "set (layers st) \<subseteq> set (map fst (data st))"
  shows "cacheOk (updateSegment key segment st) segment key"
  using cache_updateSegment [of key segment st] keys_layers_updateSegment [OF assms, of key segment]
  by (auto simp: cacheOk_def)

lemma cacheOk_updateSegment_keep:
  assumes "set (layers st) \<subseteq> set (map fst (data st))" and "cacheOk st s key"
  shows "cacheOk (updateSegment key segment st) s key"
proof (cases "s = segment")
  case True
  then show ?thesis using cacheOk_updateSegment_self [OF assms(1)] by simp
next
  case False
  then show ?thesis
    using assms(2) keys_layers_updateSegment [OF assms(1), of key segment]
    by (simp add: cacheOk_def cache_other_updateSegment)
qed

lemma segments_updateSegment_nth:
  assumes "segment \<in> set (segments st)" and "j < length (segments st)"
  shows "segments (updateSegment key segment st) ! j = segments st ! j"
    and "length (segments st) \<le> length (segments (updateSegment key segment st))"
  using segments_updateSegment [OF assms(1), of key] assms(2)
  by (auto simp: set_add_def nth_append split: if_splits)

lemma updateCacheFrom_step:
  "i < length (segments st) \<Longrightarrow>
   updateCacheFrom key i st =
     updateCacheFrom key (Suc i) (updateSegment key (segments st ! i) st)"
  by (subst updateCacheFrom.simps) simp

lemma updateCacheFrom_stop:
  "\<not> i < length (segments st) \<Longrightarrow> updateCacheFrom key i st = st"
  by (subst updateCacheFrom.simps) simp

lemma rawGet_updateCacheFrom [simp]: "rawGet (updateCacheFrom key i st) = rawGet st"
proof (induction key i st rule: updateCacheFrom.induct)
  case (1 key i st)
  show ?case
  proof (cases "i < length (segments st)")
    case True
    with "1" show ?thesis
      by (simp add: updateCacheFrom_step)
  next
    case False
    then show ?thesis
      by (simp add: updateCacheFrom_stop)
  qed
qed

lemma keys_layers_updateCacheFrom:
  "set (layers st) \<subseteq> set (map fst (data st)) \<Longrightarrow>
   map fst (data (updateCacheFrom key i st)) = map fst (data st) \<and>
   layers (updateCacheFrom key i st) = layers st"
proof (induction key i st rule: updateCacheFrom.induct)
  case (1 key i st)
  show ?case
  proof (cases "i < length (segments st)")
    case True
    let ?st1 = "updateSegment key (segments st ! i) st"
    have k: "map fst (data ?st1) = map fst (data st)" "layers ?st1 = layers st"
      using keys_layers_updateSegment [OF "1.prems"] by simp_all
    then have "set (layers ?st1) \<subseteq> set (map fst (data ?st1))"
      using "1.prems" by simp
    from "1.IH" [OF True this] k True show ?thesis
      by (simp add: updateCacheFrom_step)
  next
    case False
    then show ?thesis
      by (simp add: updateCacheFrom_stop)
  qed
qed

lemma cacheOk_updateCacheFrom:
  "set (layers st) \<subseteq> set (map fst (data st)) \<Longrightarrow>
   (\<forall>j. j < i \<and> j < length (segments st) \<longrightarrow> cacheOk st (segments st ! j) key) \<Longrightarrow>
   s \<in> set (segments (updateCacheFrom key i st)) \<Longrightarrow>
   cacheOk (updateCacheFrom key i st) s key"
proof (induction key i st rule: updateCacheFrom.induct)
  case (1 key i st)
  show ?case
  proof (cases "i < length (segments st)")
    case True
    let ?seg = "segments st ! i"
    let ?st1 = "updateSegment key ?seg st"
    have mem: "?seg \<in> set (segments st)" using True by simp
    have k: "map fst (data ?st1) = map fst (data st)" "layers ?st1 = layers st"
      using keys_layers_updateSegment [OF "1.prems"(1)] by simp_all
    then have sub: "set (layers ?st1) \<subseteq> set (map fst (data ?st1))"
      using "1.prems"(1) by simp
    have done1: "\<forall>j. j < Suc i \<and> j < length (segments ?st1) \<longrightarrow>
                    cacheOk ?st1 (segments ?st1 ! j) key"
    proof (intro allI impI)
      fix j assume j: "j < Suc i \<and> j < length (segments ?st1)"
      then have jl: "j < length (segments st)" using True by simp
      have same: "segments ?st1 ! j = segments st ! j"
        using segments_updateSegment_nth(1) [OF mem jl] .
      show "cacheOk ?st1 (segments ?st1 ! j) key"
      proof (cases "j = i")
        case True
        then show ?thesis
          using same cacheOk_updateSegment_self [OF "1.prems"(1), of key ?seg] by simp
      next
        case False
        then have "j < i" using j by simp
        then have "cacheOk st (segments st ! j) key"
          using "1.prems"(2) jl by simp
        then show ?thesis
          using same cacheOk_updateSegment_keep [OF "1.prems"(1)] by simp
      qed
    qed
    have unfold: "updateCacheFrom key i st = updateCacheFrom key (Suc i) ?st1"
      using True by (rule updateCacheFrom_step)
    from "1.IH" [OF True sub done1] "1.prems"(3) unfold
    show ?thesis by simp
  next
    case False
    then have unfold: "updateCacheFrom key i st = st"
      by (rule updateCacheFrom_stop)
    obtain j where "j < length (segments st)" "segments st ! j = s"
      using "1.prems"(3) unfold by (auto simp: in_set_conv_nth)
    then show ?thesis
      using "1.prems"(2) False unfold by auto
  qed
qed

lemma segments_updateCacheFrom:
  "set (segments st) \<subseteq> set (segments (updateCacheFrom key i st))"
proof (induction key i st rule: updateCacheFrom.induct)
  case (1 key i st)
  show ?case
  proof (cases "i < length (segments st)")
    case True
    let ?seg = "segments st ! i"
    have mem: "?seg \<in> set (segments st)" using True by simp
    have "set (segments st) \<subseteq> set (segments (updateSegment key ?seg st))"
      using segments_updateSegment [OF mem, of key] by (auto simp: set_add_def split: if_splits)
    with "1.IH" [OF True] True show ?thesis
      by (auto simp: updateCacheFrom_step)
  next
    case False
    then show ?thesis
      by (simp add: updateCacheFrom_stop)
  qed
qed

section \<open>Preservation of the invariants\<close>

lemma hasLSData_getLSData:
  "hasLSData (snd (getLSData layer segment st)) l s \<longleftrightarrow>
     hasLSData st l s \<or> (l = layer \<and> s = segment)"
  by (auto simp: hasLSData_def getLSData_def Let_def update_conv' map_of_map_entry
           split: option.splits if_splits)

lemma segments_getLSData_new:
  "\<not> hasLSData st layer segment \<Longrightarrow>
   segment \<in> set (segments (snd (getLSData layer segment st)))"
  by (auto simp: hasLSData_def getLSData_def Let_def set_add_def split: option.splits)

lemma wellformed_getLSData:
  assumes "wellformed st"
  shows "wellformed (snd (getLSData layer segment st))"
proof -
  let ?st1 = "snd (getLSData layer segment st)"
  have d: "distinct (map fst (data ?st1))"
    using assms by (simp add: wellformed_def keys_getLSData)
  have l: "layers ?st1 = sort_by reverseNumeric (map fst (data ?st1))"
    using assms by (simp add: wellformed_def keys_getLSData layers_getLSData)
  have s: "s \<in> set (segments ?st1)" if h: "hasLSData ?st1 l s" for l s
  proof (cases "hasLSData st l s")
    case True
    then have "s \<in> set (segments st)" using assms by (simp add: wellformed_def)
    then show ?thesis using segments_getLSData_mem [of st layer segment] by auto
  next
    case False
    then have "l = layer" "s = segment" "\<not> hasLSData st layer segment"
      using h by (auto simp: hasLSData_getLSData)
    then show ?thesis using segments_getLSData_new by simp
  qed
  show ?thesis
    unfolding wellformed_def using d l s by blast
qed

lemma wellformed_getLSData_pair:
  "wellformed st \<Longrightarrow> getLSData layer segment st = (m, st') \<Longrightarrow> wellformed st'"
  using wellformed_getLSData [of st layer segment] by simp

lemma wellformed_cache_update [simp]:
  "wellformed (st\<lparr>topLevelCache := c\<rparr>) = wellformed st"
  by (simp add: wellformed_def hasLSData_def)

lemma wellformed_cacheSet [simp]: "wellformed (cacheSet segment key v st) = wellformed st"
  by (simp add: cacheSet_def)

lemma wellformed_searchLayers:
  "wellformed st \<Longrightarrow> wellformed (searchLayers key segment ls st)"
proof (induction ls arbitrary: st)
  case Nil
  then show ?case by simp
next
  case (Cons layer rest)
  obtain lsData st1 where g1: "getLSData layer segment st = (lsData, st1)"
    by (cases "getLSData layer segment st")
  obtain lmData st2 where g2: "getLSData layer Monolithic st1 = (lmData, st2)"
    by (cases "getLSData layer Monolithic st1")
  have w1: "wellformed st1"
    using wellformed_getLSData_pair [OF Cons.prems g1] .
  have w2: "wellformed st2"
    using wellformed_getLSData_pair [OF w1 g2] .
  show ?case
    using g1 g2 w1 w2 Cons.IH [OF w2] by (simp split: option.splits)
qed

lemma wellformed_prepared [simp]: "wellformed (prepared key segment st) = wellformed st"
  by (simp add: prepared_def Let_def split: option.splits)

lemma wellformed_updateSegment:
  "wellformed st \<Longrightarrow> wellformed (updateSegment key segment st)"
  by (simp add: updateSegment_prepared wellformed_searchLayers)

lemma wellformed_updateCacheFrom:
  "wellformed st \<Longrightarrow> wellformed (updateCacheFrom key i st)"
proof (induction key i st rule: updateCacheFrom.induct)
  case (1 key i st)
  show ?case
  proof (cases "i < length (segments st)")
    case True
    with "1" show ?thesis
      by (simp add: updateCacheFrom_step wellformed_updateSegment)
  next
    case False
    with "1.prems" show ?thesis
      by (simp add: updateCacheFrom_stop)
  qed
qed

lemma wellformed_layers_keys:
  "wellformed st \<Longrightarrow> set (layers st) \<subseteq> set (map fst (data st))"
  by (simp add: wellformed_def)

text \<open>Writing into the key-value map of a segment on a layer.\<close>

lemma wellformed_modify:
  assumes "wellformed st"
  shows "wellformed (st\<lparr>data := AList.map_entry layer (AList.map_entry segment f) (data st)\<rparr>)"
proof -
  let ?st' = "st\<lparr>data := AList.map_entry layer (AList.map_entry segment f) (data st)\<rparr>"
  have "hasLSData ?st' l s = hasLSData st l s" for l s
    by (auto simp: hasLSData_def map_of_map_entry split: option.splits)
  then show ?thesis
    using assms by (simp add: wellformed_def)
qed

lemma wellformed_set_entry:
  "wellformed st \<Longrightarrow> wellformed (set_entry layer segment key v st)"
  by (auto simp: set_entry_def updateCache_def split: prod.splits
           intro!: wellformed_updateCacheFrom wellformed_modify
           dest: wellformed_getLSData_pair)

lemma wellformed_delete_entry:
  "wellformed st \<Longrightarrow> wellformed (delete_entry layer segment key st)"
  by (auto simp: delete_entry_def updateCache_def split: prod.splits
           intro!: wellformed_updateCacheFrom wellformed_modify
           dest: wellformed_getLSData_pair)

lemma hasLSData_deleteSegmentData:
  "hasLSData (deleteSegmentData segment st) l s \<longleftrightarrow> hasLSData st l s \<and> s \<noteq> segment"
  by (auto simp: hasLSData_def deleteSegmentData_def map_ran_conv delete_conv'
           split: option.splits)

lemma wellformed_deleteSegmentData:
  "wellformed st \<Longrightarrow> wellformed (deleteSegmentData segment st)"
  unfolding wellformed_def hasLSData_deleteSegmentData
  by (auto simp: deleteSegmentData_def)

lemma wellformed_newCore: "wellformed newCore"
  by (simp add: wellformed_def newCore_def hasLSData_def)

lemma wellformed_exec: "wellformed st \<Longrightarrow> wellformed (snd (exec c st))"
  by (cases c)
     (simp_all add: wellformed_set_entry wellformed_delete_entry wellformed_deleteSegmentData)

lemma run_Nil [simp]: "run [] = newCore"
  by (simp add: run_def)

lemma run_snoc [simp]: "run (calls @ [c]) = snd (exec c (run calls))"
  by (simp add: run_def)

lemma wellformed_run: "wellformed (run calls)"
  by (induction calls rule: rev_induct) (simp_all add: wellformed_newCore wellformed_exec)

section \<open>Properties of the public operations\<close>

lemma hasLSData_cacheSet [simp]: "hasLSData (cacheSet segment key v st) = hasLSData st"
  by (intro ext) (simp add: hasLSData_def cacheSet_def)

lemma hasLSData_prepared [simp]: "hasLSData (prepared key segment st) = hasLSData st"
  by (intro ext) (simp add: hasLSData_def)

lemma hasLSData_getLSData_pair:
  "hasLSData st l s \<Longrightarrow> getLSData layer segment st = (m, st') \<Longrightarrow> hasLSData st' l s"
  using hasLSData_getLSData [of layer segment st l s] by simp

lemma hasLSData_searchLayers:
  "hasLSData st l s \<Longrightarrow> hasLSData (searchLayers key segment ls st) l s"
proof (induction ls arbitrary: st)
  case Nil
  then show ?case by simp
next
  case (Cons layer rest)
  obtain lsData st1 where g1: "getLSData layer segment st = (lsData, st1)"
    by (cases "getLSData layer segment st")
  obtain lmData st2 where g2: "getLSData layer Monolithic st1 = (lmData, st2)"
    by (cases "getLSData layer Monolithic st1")
  have h1: "hasLSData st1 l s"
    using hasLSData_getLSData_pair [OF Cons.prems g1] .
  have h2: "hasLSData st2 l s"
    using hasLSData_getLSData_pair [OF h1 g2] .
  show ?case
    using g1 g2 h1 h2 Cons.IH [OF h2] by (simp split: option.splits)
qed

lemma hasLSData_updateCacheFrom:
  "hasLSData st l s \<Longrightarrow> hasLSData (updateCacheFrom key i st) l s"
proof (induction key i st rule: updateCacheFrom.induct)
  case (1 key i st)
  show ?case
  proof (cases "i < length (segments st)")
    case True
    with "1" show ?thesis
      by (simp add: updateCacheFrom_step updateSegment_prepared hasLSData_searchLayers)
  next
    case False
    with "1.prems" show ?thesis
      by (simp add: updateCacheFrom_stop)
  qed
qed

lemma hasLSData_key: "hasLSData st l s \<Longrightarrow> l \<in> fst ` set (data st)"
  by (auto simp: hasLSData_def split: option.splits dest: map_of_Some_key)

text \<open>The state of \<open>set\<close> and \<open>delete\<close> between the write and the update of the cache.\<close>

lemma written_rawGet:
  assumes "getLSData layer segment st = (m, st1)"
  shows "rawGet (st1\<lparr>data := AList.map_entry layer (AList.map_entry segment f) (data st1)\<rparr>) l s k =
           (if l = layer \<and> s = segment then map_of (f m) k else rawGet st l s k)"
proof -
  have m: "m = fst (getLSData layer segment st)" and st1: "st1 = snd (getLSData layer segment st)"
    using assms by simp_all
  show ?thesis
    unfolding m st1
    by (auto simp: rawGet_def getLSData_def Let_def update_conv' map_of_map_entry
             split: option.splits)
qed

lemma rawGet_set_entry:
  "rawGet (set_entry layer segment key v st) l s k =
     (if l = layer \<and> s = segment \<and> k = key then Some v else rawGet st l s k)"
proof -
  obtain m st1 where g: "getLSData layer segment st = (m, st1)"
    by (cases "getLSData layer segment st")
  show ?thesis
    using written_rawGet [OF g, of "AList.update key v" l s k] getLSData_pair(2) [OF g]
    by (simp add: set_entry_def g updateCache_def update_conv')
qed

lemma rawGet_delete_entry:
  "rawGet (delete_entry layer segment key st) l s k =
     (if l = layer \<and> s = segment \<and> k = key then None else rawGet st l s k)"
proof -
  obtain m st1 where g: "getLSData layer segment st = (m, st1)"
    by (cases "getLSData layer segment st")
  show ?thesis
    using written_rawGet [OF g, of "AList.delete key" l s k] getLSData_pair(2) [OF g]
    by (simp add: delete_entry_def g updateCache_def delete_conv')
qed

lemma hasLSData_written:
  "hasLSData (st\<lparr>data := AList.map_entry layer (AList.map_entry segment f) (data st)\<rparr>) =
   hasLSData st"
  by (intro ext) (auto simp: hasLSData_def map_of_map_entry split: option.splits)

lemma hasLSData_set_entry: "hasLSData (set_entry layer segment key v st) layer segment"
proof -
  obtain m st1 where g: "getLSData layer segment st = (m, st1)"
    by (cases "getLSData layer segment st")
  have "hasLSData st1 layer segment"
    using hasLSData_getLSData [of layer segment st layer segment] g by simp
  then show ?thesis
    by (simp add: set_entry_def g updateCache_def hasLSData_updateCacheFrom hasLSData_written)
qed

lemma hasLSData_delete_entry: "hasLSData (delete_entry layer segment key st) layer segment"
proof -
  obtain m st1 where g: "getLSData layer segment st = (m, st1)"
    by (cases "getLSData layer segment st")
  have "hasLSData st1 layer segment"
    using hasLSData_getLSData [of layer segment st layer segment] g by simp
  then show ?thesis
    by (simp add: delete_entry_def g updateCache_def hasLSData_updateCacheFrom hasLSData_written)
qed

text \<open>After the update of the cache for a key, every registered segment has the resolved value.\<close>

lemma cacheOk_updateCache:
  assumes "wellformed st" and "s \<in> set (segments (updateCache key st))"
  shows "cacheOk (updateCache key st) s key"
  using cacheOk_updateCacheFrom [OF wellformed_layers_keys [OF assms(1)], of 0 key s] assms(2)
  by (simp add: updateCache_def)

lemma cacheOk_set_entry:
  assumes "wellformed st" and "s \<in> set (segments (set_entry layer segment key v st))"
  shows "cacheOk (set_entry layer segment key v st) s key"
proof -
  obtain m st1 where g: "getLSData layer segment st = (m, st1)"
    by (cases "getLSData layer segment st")
  let ?st2 = "st1\<lparr>data := AList.map_entry layer (AList.map_entry segment (AList.update key v)) (data st1)\<rparr>"
  have "wellformed ?st2"
    using wellformed_modify [OF wellformed_getLSData_pair [OF assms(1) g]] .
  from cacheOk_updateCache [OF this, of s key] assms(2)
  show ?thesis by (simp add: set_entry_def g)
qed

lemma cacheOk_delete_entry:
  assumes "wellformed st" and "s \<in> set (segments (delete_entry layer segment key st))"
  shows "cacheOk (delete_entry layer segment key st) s key"
proof -
  obtain m st1 where g: "getLSData layer segment st = (m, st1)"
    by (cases "getLSData layer segment st")
  let ?st2 = "st1\<lparr>data := AList.map_entry layer (AList.map_entry segment (AList.delete key)) (data st1)\<rparr>"
  have "wellformed ?st2"
    using wellformed_modify [OF wellformed_getLSData_pair [OF assms(1) g]] .
  from cacheOk_updateCache [OF this, of s key] assms(2)
  show ?thesis by (simp add: delete_entry_def g)
qed

lemma wellformed_layers_spec:
  "wellformed st \<Longrightarrow> layers st = rev (sort (map fst (data st)))"
  by (simp add: wellformed_def sort_by_eq_rev_sort)

lemma cacheOk_get:
  "wellformed st \<Longrightarrow> cacheOk st s key \<Longrightarrow>
   get s key st = resolve_spec st s key \<and> cacheGet st s key = resolve_spec st s key"
  by (auto simp: cacheOk_def get_def cacheGet_def resolve_spec_def wellformed_layers_spec)

lemma resolve_layers_hit:
  "layer \<in> set ls \<Longrightarrow> raw layer segment key = Some v \<Longrightarrow>
   resolve_layers raw ls segment key \<noteq> None"
  by (induction ls) (auto split: option.splits)

lemma wellformed_registered:
  "wellformed st \<Longrightarrow> hasLSData st l s \<Longrightarrow> s \<in> set (segments st) \<and> l \<in> set (layers st)"
  using hasLSData_key [of st l s] by (auto simp: wellformed_def)

lemma deleteSegmentData_idem:
  "deleteSegmentData segment (deleteSegmentData segment st) = deleteSegmentData segment st"
proof -
  have "map_ran (\<lambda>layer. AList.delete segment) (map_ran (\<lambda>layer. AList.delete segment) xs) =
        map_ran (\<lambda>layer. AList.delete segment) xs" for xs :: "(int, (segment, ('a, 'b) jsmap) jsmap) jsmap"
    by (induction xs) (auto simp: delete_idem)
  then show ?thesis
    by (simp add: deleteSegmentData_def delete_idem)
qed

lemma deleteSegmentData_unknown:
  assumes "\<forall>lData \<in> snd ` set (data st). map_of lData segment = None"
    and "map_of (topLevelCache st) segment = None"
    and "segment \<notin> set (segments st)"
  shows "deleteSegmentData segment st = st"
proof -
  have "(\<forall>lData \<in> snd ` set xs. map_of lData segment = None) \<Longrightarrow>
        map_ran (\<lambda>layer. AList.delete segment) xs = xs" for xs :: "(int, (segment, ('a, 'b) jsmap) jsmap) jsmap"
    by (induction xs) (auto simp: map_of_eq_None_iff)
  then show ?thesis
    using assms by (simp add: deleteSegmentData_def map_of_eq_None_iff)
qed

lemma set_entry_registered:
  assumes "wellformed st"
  shows "segment \<in> set (segments (set_entry layer segment key v st)) \<and>
         layer \<in> set (layers (set_entry layer segment key v st))"
  using wellformed_registered [OF wellformed_set_entry [OF assms] hasLSData_set_entry] .

lemma set_entry_visible:
  assumes "wellformed st"
  shows "has segment key (set_entry layer segment key v st) \<and>
         get segment key (set_entry layer segment key v st) =
           resolve_spec (set_entry layer segment key v st) segment key"
proof -
  let ?st' = "set_entry layer segment key v st"
  have w: "wellformed ?st'" using assms by (rule wellformed_set_entry)
  have reg: "segment \<in> set (segments ?st')" "layer \<in> set (layers ?st')"
    using set_entry_registered [OF assms] by simp_all
  have ok: "cacheOk ?st' segment key"
    using cacheOk_set_entry [OF assms reg(1)] .
  have raw: "rawGet ?st' layer segment key = Some v"
    by (simp add: rawGet_set_entry)
  have "resolve_layers (rawGet ?st') (layers ?st') segment key \<noteq> None"
    using resolve_layers_hit [of layer "layers ?st'" "rawGet ?st'" segment key v] reg(2) raw
    by simp
  then have "has segment key ?st'"
    using ok by (auto simp: cacheOk_def has_def)
  then show ?thesis
    using cacheOk_get [OF w ok] by simp
qed

lemma data_deleteSegmentData_absent:
  "\<forall>lData \<in> snd ` set (data (deleteSegmentData segment st)). map_of lData segment = None"
proof -
  have "\<forall>lData \<in> snd ` set (map_ran (\<lambda>layer. AList.delete segment) xs).
          map_of lData segment = None" for xs :: "(int, (segment, ('a, 'b) jsmap) jsmap) jsmap"
    by (induction xs) (auto simp: delete_conv')
  then show ?thesis
    by (simp add: deleteSegmentData_def)
qed

lemma rawGet_deleteSegmentData:
  "rawGet (deleteSegmentData segment st) l s k = (if s = segment then None else rawGet st l s k)"
  by (auto simp: rawGet_def deleteSegmentData_def map_ran_conv delete_conv' split: option.splits)

lemma keys_exec:
  assumes "wellformed st"
  shows "fst ` set (data st) \<subseteq> fst ` set (data (snd (exec c st)))"
proof (cases c)
  case (Set layer segment key v)
  obtain m st1 where g: "getLSData layer segment st = (m, st1)"
    by (cases "getLSData layer segment st")
  let ?st2 = "st1\<lparr>data := AList.map_entry layer (AList.map_entry segment (AList.update key v)) (data st1)\<rparr>"
  have w2: "wellformed ?st2"
    using wellformed_modify [OF wellformed_getLSData_pair [OF assms g]] .
  have k1: "set (map fst (data st)) \<subseteq> set (map fst (data st1))"
    using keys_getLSData [of layer segment st] g by (auto split: if_splits)
  have "map fst (data (updateCacheFrom key 0 ?st2)) = map fst (data ?st2)"
    using keys_layers_updateCacheFrom [OF wellformed_layers_keys [OF w2]] by simp
  then have "set (map fst (data (set_entry layer segment key v st))) = set (map fst (data st1))"
    by (simp add: set_entry_def g updateCache_def)
  then show ?thesis using k1 Set by simp
next
  case (Delete layer segment key)
  obtain m st1 where g: "getLSData layer segment st = (m, st1)"
    by (cases "getLSData layer segment st")
  let ?st2 = "st1\<lparr>data := AList.map_entry layer (AList.map_entry segment (AList.delete key)) (data st1)\<rparr>"
  have w2: "wellformed ?st2"
    using wellformed_modify [OF wellformed_getLSData_pair [OF assms g]] .
  have k1: "set (map fst (data st)) \<subseteq> set (map fst (data st1))"
    using keys_getLSData [of layer segment st] g by (auto split: if_splits)
  have "map fst (data (updateCacheFrom key 0 ?st2)) = map fst (data ?st2)"
    using keys_layers_updateCacheFrom [OF wellformed_layers_keys [OF w2]] by simp
  then have "set (map fst (data (delete_entry layer segment key st))) = set (map fst (data st1))"
    by (simp add: delete_entry_def g updateCache_def)
  then show ?thesis using k1 Delete by simp
next
  case (DeleteSegmentData segment)
  have "map fst (data (deleteSegmentData segment st)) = map fst (data st)"
    by (simp add: deleteSegmentData_def)
  then have "set (map fst (data (deleteSegmentData segment st))) = set (map fst (data st))"
    by simp
  then show ?thesis using DeleteSegmentData by simp
qed simp_all

section \<open>What a write leaves unchanged\<close>

lemma has_cacheGet: "has segment key st \<longleftrightarrow> cacheGet st segment key \<noteq> None"
  by (simp add: has_def cacheGet_def split: option.splits)

lemma cacheGet_updateSegment_other:
  assumes "k \<noteq> key"
  shows "cacheGet (updateSegment key segment st) s k = cacheGet st s k"
proof (cases "s = segment")
  case True
  obtain m' where
    "map_of (topLevelCache (updateSegment key segment st)) segment = Some m'"
    "\<forall>k. k \<noteq> key \<longrightarrow> map_of m' k =
        (case map_of (topLevelCache st) segment of None \<Rightarrow> None | Some m \<Rightarrow> map_of m k)"
    using cache_updateSegment [of key segment st] by blast
  then show ?thesis
    using assms True by (simp add: cacheGet_def)
next
  case False
  then show ?thesis
    by (simp add: cacheGet_def cache_other_updateSegment)
qed

lemma cacheGet_updateCacheFrom_other:
  "k \<noteq> key \<Longrightarrow> cacheGet (updateCacheFrom key i st) s k = cacheGet st s k"
proof (induction key i st rule: updateCacheFrom.induct)
  case (1 key i st)
  show ?case
  proof (cases "i < length (segments st)")
    case True
    with "1" show ?thesis
      by (simp add: updateCacheFrom_step cacheGet_updateSegment_other)
  next
    case False
    then show ?thesis
      by (simp add: updateCacheFrom_stop)
  qed
qed

lemma cacheGet_cache_cong:
  "topLevelCache st' = topLevelCache st \<Longrightarrow> cacheGet st' = cacheGet st"
  by (intro ext) (simp add: cacheGet_def)

lemma cacheGet_set_entry_other:
  assumes "k \<noteq> key"
  shows "cacheGet (set_entry layer segment key v st) s k = cacheGet st s k"
proof -
  obtain m st1 where g: "getLSData layer segment st = (m, st1)"
    by (cases "getLSData layer segment st")
  have "cacheGet (st1\<lparr>data := d\<rparr>) = cacheGet st" for d
    using getLSData_pair(3) [OF g] by (intro cacheGet_cache_cong) simp
  then show ?thesis
    using assms by (simp add: set_entry_def g updateCache_def cacheGet_updateCacheFrom_other)
qed

lemma cacheGet_delete_entry_other:
  assumes "k \<noteq> key"
  shows "cacheGet (delete_entry layer segment key st) s k = cacheGet st s k"
proof -
  obtain m st1 where g: "getLSData layer segment st = (m, st1)"
    by (cases "getLSData layer segment st")
  have "cacheGet (st1\<lparr>data := d\<rparr>) = cacheGet st" for d
    using getLSData_pair(3) [OF g] by (intro cacheGet_cache_cong) simp
  then show ?thesis
    using assms by (simp add: delete_entry_def g updateCache_def cacheGet_updateCacheFrom_other)
qed

text \<open>The walk stops at the latest on a layer where the segment has the key itself.\<close>

lemma resolve_layers_upto:
  assumes "sorted_wrt (>) ls" and "M \<in> set ls" and "raw M segment key = Some w"
  shows "resolve_layers raw ls segment key =
         resolve_layers raw (filter (\<lambda>l. M \<le> l) ls) segment key"
  using assms
proof (induction ls)
  case Nil
  then show ?case by simp
next
  case (Cons l rest)
  show ?case
  proof (cases "l = M")
    case True
    then show ?thesis using Cons.prems(3) by simp
  next
    case False
    then have mem: "M \<in> set rest" using Cons.prems(2) by simp
    then have "M < l" using Cons.prems(1) by auto
    then show ?thesis
      using Cons.IH [OF _ mem Cons.prems(3)] Cons.prems(1) by (simp split: option.splits)
  qed
qed

lemma resolve_layers_cong:
  assumes "\<forall>l \<in> set ls. raw' l segment key = raw l segment key \<and>
             (raw l segment key = None \<longrightarrow> raw' l Monolithic key = raw l Monolithic key)"
  shows "resolve_layers raw' ls segment key = resolve_layers raw ls segment key"
  using assms by (induction ls) (auto split: option.splits)

lemma descending_unique:
  assumes "sorted_wrt (>) (xs :: int list)" and "sorted_wrt (>) ys" and "set xs = set ys"
  shows "xs = ys"
proof -
  have "sorted_wrt (<) (rev xs)" "sorted_wrt (<) (rev ys)"
    using assms(1,2) by (simp_all add: sorted_wrt_rev)
  then have "rev xs = rev ys"
    using assms(3) by (intro strict_sorted_equal) simp_all
  then show ?thesis by simp
qed

lemma rawGet_hasLSData: "rawGet st l s k = Some v \<Longrightarrow> hasLSData st l s"
  by (auto simp: rawGet_def hasLSData_def split: option.splits)

lemma segments_set_entry_mono:
  "set (segments st) \<subseteq> set (segments (set_entry layer segment key v st))"
proof -
  obtain m st1 where g: "getLSData layer segment st = (m, st1)"
    by (cases "getLSData layer segment st")
  let ?st2 = "st1\<lparr>data := AList.map_entry layer
                (AList.map_entry segment (AList.update key v)) (data st1)\<rparr>"
  have "set (segments st) \<subseteq> set (segments ?st2)"
    using getLSData_pair(6) [OF g] by simp
  also have "\<dots> \<subseteq> set (segments (updateCacheFrom key 0 ?st2))"
    by (rule segments_updateCacheFrom)
  finally show ?thesis
    by (simp add: set_entry_def g updateCache_def)
qed

lemma keys_set_entry:
  assumes "wellformed st"
  shows "set (map fst (data (set_entry layer segment key v st))) =
         insert layer (set (map fst (data st)))"
proof -
  obtain m st1 where g: "getLSData layer segment st = (m, st1)"
    by (cases "getLSData layer segment st")
  let ?st2 = "st1\<lparr>data := AList.map_entry layer
                (AList.map_entry segment (AList.update key v)) (data st1)\<rparr>"
  have w2: "wellformed ?st2"
    using wellformed_modify [OF wellformed_getLSData_pair [OF assms g]] .
  have k1: "set (map fst (data st1)) = insert layer (set (map fst (data st)))"
    using keys_getLSData [of layer segment st] g by (auto split: if_splits)
  have "map fst (data (updateCacheFrom key 0 ?st2)) = map fst (data ?st2)"
    using keys_layers_updateCacheFrom [OF wellformed_layers_keys [OF w2]] by simp
  then have "map fst (data (set_entry layer segment key v st)) = map fst (data st1)"
    by (simp add: set_entry_def g updateCache_def)
  then show ?thesis using k1 by simp
qed

lemma wellformed_layers_sorted:
  "wellformed st \<Longrightarrow> sorted_wrt (>) (layers st) \<and> set (layers st) = set (map fst (data st))"
  by (simp add: wellformed_def strict_sorted_sort_by)

lemma cacheOk_get_layers:
  "cacheOk st s key \<Longrightarrow> get s key st = resolve_layers (rawGet st) (layers st) s key"
  by (auto simp: cacheOk_def get_def)

text \<open>
  Where the cache entry of a segment agrees with the Raw Store, a write for another
  segment on a layer that is not above one of the segment's own values leaves what the
  segment reads.
\<close>

lemma segment_isolation_consistent:
  assumes w: "wellformed st" and ok: "cacheOk st B key" and ne: "B \<noteq> A"
    and own: "rawGet st M B key = Some x" and le: "L \<le> M"
  shows "get B key (set_entry L A key v st) = get B key st"
proof -
  let ?st' = "set_entry L A key v st"
  let ?up = "\<lambda>l. M \<le> l"
  have w': "wellformed ?st'" using w by (rule wellformed_set_entry)
  have regB: "B \<in> set (segments st)" and regM: "M \<in> set (layers st)"
    using wellformed_registered [OF w rawGet_hasLSData [OF own]] by simp_all
  have "B \<in> set (segments ?st')"
    using regB segments_set_entry_mono [of st L A key v] by auto
  then have ok': "cacheOk ?st' B key"
    using cacheOk_set_entry [OF w] by simp
  have own': "rawGet ?st' M B key = Some x"
    using own ne by (simp add: rawGet_set_entry)
  have regM': "M \<in> set (layers ?st')"
    using wellformed_registered [OF w' rawGet_hasLSData [OF own']] by simp
  have so: "sorted_wrt (>) (layers st)" and se: "set (layers st) = set (map fst (data st))"
    using wellformed_layers_sorted [OF w] by simp_all
  have so': "sorted_wrt (>) (layers ?st')" and se': "set (layers ?st') = set (map fst (data ?st'))"
    using wellformed_layers_sorted [OF w'] by simp_all
  have "set (layers ?st') = insert L (set (layers st))"
    using se se' keys_set_entry [OF w, of L A key v] by simp
  then have "set (filter ?up (layers ?st')) = set (filter ?up (layers st))"
    using le regM by (cases "L = M") auto
  then have same: "filter ?up (layers ?st') = filter ?up (layers st)"
    using so so' by (intro descending_unique sorted_wrt_filter)
  have "get B key ?st' = resolve_layers (rawGet ?st') (layers ?st') B key"
    using ok' by (rule cacheOk_get_layers)
  also have "\<dots> = resolve_layers (rawGet ?st') (filter ?up (layers ?st')) B key"
    using resolve_layers_upto [of "layers ?st'" M "rawGet ?st'" B key x] so' regM' own'
    by simp
  also have "\<dots> = resolve_layers (rawGet ?st') (filter ?up (layers st)) B key"
    by (simp only: same)
  also have "\<dots> = resolve_layers (rawGet st) (filter ?up (layers st)) B key"
  proof (rule resolve_layers_cong, intro ballI conjI impI)
    fix l assume "l \<in> set (filter ?up (layers st))"
    then have ge: "M \<le> l" by simp
    show "rawGet ?st' l B key = rawGet st l B key"
      using ne by (simp add: rawGet_set_entry)
    assume "rawGet st l B key = None"
    then have "l \<noteq> M" using own by auto
    then have "l \<noteq> L" using ge le by simp
    then show "rawGet ?st' l Monolithic key = rawGet st l Monolithic key"
      by (simp add: rawGet_set_entry)
  qed
  also have "\<dots> = resolve_layers (rawGet st) (layers st) B key"
    using resolve_layers_upto [of "layers st" M "rawGet st" B key x] so regM own
    by simp
  also have "\<dots> = get B key st"
    using cacheOk_get_layers [OF ok] by simp
  finally show ?thesis .
qed

text \<open>
  After a write or a delete of a key, every registered segment reads the resolved value of
  that key.
\<close>

lemma written_key_resolved:
  assumes "s \<in> set (segments (run (calls @ [Set layer segment key v])))"
  shows "get s key (run (calls @ [Set layer segment key v])) =
         resolve_spec (run (calls @ [Set layer segment key v])) s key"
proof -
  have w: "wellformed (run calls)" by (rule wellformed_run)
  have "cacheOk (set_entry layer segment key v (run calls)) s key"
    using cacheOk_set_entry [OF w] assms by simp
  then show ?thesis
    using cacheOk_get [OF wellformed_set_entry [OF w]] by simp
qed

lemma deleted_key_resolved:
  assumes "s \<in> set (segments (run (calls @ [Delete layer segment key])))"
  shows "get s key (run (calls @ [Delete layer segment key])) =
         resolve_spec (run (calls @ [Delete layer segment key])) s key"
proof -
  have w: "wellformed (run calls)" by (rule wellformed_run)
  have "cacheOk (delete_entry layer segment key (run calls)) s key"
    using cacheOk_delete_entry [OF w] assms by simp
  then show ?thesis
    using cacheOk_get [OF wellformed_delete_entry [OF w]] by simp
qed

section \<open>The claims of the specification\<close>

subsection \<open>Cache and Raw Store\<close>

text \<open>
  C1. After any sequence of operations the cache entry of every segment and key should
  equal the resolution recomputed from the Raw Store alone. The code does not keep this:
  \<^verbatim>\<open>_updateCache(key)\<close> refreshes the entry of the written key only, so a segment that is
  registered after a key was written to the monolithic segment gets a cache map without
  that key. After \<^verbatim>\<open>set(0, monolithic, "k", 1)\<close> and \<^verbatim>\<open>set(0, Seg 1, "j", 2)\<close> the cache of
  \<open>Seg 1\<close> has no entry for \<open>k\<close> and \<^verbatim>\<open>get\<close> returns nothing, while the resolution from
  the Raw Store is \<open>1\<close>.
\<close>

theorem cache_entry_differs_from_resolve:
  "cacheGet (run [Set 0 Monolithic ''k'' (1::nat), Set 0 (Seg 1) ''j'' 2]) (Seg 1) ''k'' = None \<and>
   get (Seg 1) ''k'' (run [Set 0 Monolithic ''k'' (1::nat), Set 0 (Seg 1) ''j'' 2]) = None \<and>
   resolve_spec (run [Set 0 Monolithic ''k'' (1::nat), Set 0 (Seg 1) ''j'' 2]) (Seg 1) ''k'' =
     Some 1"
  by code_simp

text \<open>
  C2. \<^verbatim>\<open>get(segment, key)\<close> should return the value of the highest layer on which the
  segment, or else the monolithic segment, has the key. With \<open>k\<close> set for the monolithic
  segment on the layers 0 and 1 and never deleted, and another key then written for
  \<open>Seg 1\<close>, the value to return for \<open>Seg 1\<close> and \<open>k\<close> is \<open>11\<close> (layer 1); the code returns
  nothing.
\<close>

theorem get_misses_monolithic_value:
  "layers (run [Set 0 Monolithic ''k'' (10::nat), Set 1 Monolithic ''k'' 11,
                Set 0 (Seg 1) ''j'' 2]) = [1, 0] \<and>
   rawGet (run [Set 0 Monolithic ''k'' (10::nat), Set 1 Monolithic ''k'' 11,
                Set 0 (Seg 1) ''j'' 2]) 1 (Seg 1) ''k'' = None \<and>
   rawGet (run [Set 0 Monolithic ''k'' (10::nat), Set 1 Monolithic ''k'' 11,
                Set 0 (Seg 1) ''j'' 2]) 0 (Seg 1) ''k'' = None \<and>
   rawGet (run [Set 0 Monolithic ''k'' (10::nat), Set 1 Monolithic ''k'' 11,
                Set 0 (Seg 1) ''j'' 2]) 1 Monolithic ''k'' = Some 11 \<and>
   get (Seg 1) ''k'' (run [Set 0 Monolithic ''k'' (10::nat), Set 1 Monolithic ''k'' 11,
                           Set 0 (Seg 1) ''j'' 2]) = None"
  by code_simp

text \<open>
  C3. A segment without a value for the key on any layer should read what the monolithic
  segment reads. After \<^verbatim>\<open>set(3, monolithic, "k", 1)\<close> and \<^verbatim>\<open>delete(3, Seg 1, "j")\<close> the
  segment \<open>Seg 1\<close> has no value for \<open>k\<close> on the only layer, \<^verbatim>\<open>get(monolithic, "k")\<close> is \<open>1\<close>
  and \<^verbatim>\<open>get(Seg 1, "k")\<close> is nothing.
\<close>

theorem get_differs_from_monolithic:
  "layers (run [Set 3 Monolithic ''k'' (1::nat), Delete 3 (Seg 1) ''j'']) = [3] \<and>
   rawGet (run [Set 3 Monolithic ''k'' (1::nat), Delete 3 (Seg 1) ''j'']) 3 (Seg 1) ''k'' = None \<and>
   get Monolithic ''k'' (run [Set 3 Monolithic ''k'' (1::nat), Delete 3 (Seg 1) ''j'']) = Some 1 \<and>
   get (Seg 1) ''k'' (run [Set 3 Monolithic ''k'' (1::nat), Delete 3 (Seg 1) ''j'']) = None"
  by code_simp

subsection \<open>delete\<close>

text \<open>
  C4, as stated, at a concrete input: the entry for layer 7, \<open>Seg 1\<close> and \<open>j\<close> is absent,
  and \<^verbatim>\<open>delete(7, Seg 1, "j")\<close> still creates the layer 7, registers the segment \<open>Seg 1\<close>
  and creates its cache map; with the cache map there, \<^verbatim>\<open>get(Seg 1, "k")\<close> no longer
  falls back to the monolithic cache.
\<close>

theorem delete_absent_changes_state:
  "rawGet (run [Set 0 Monolithic ''k'' (1::nat)]) 7 (Seg 1) ''j'' = None \<and>
   layers (run [Set 0 Monolithic ''k'' (1::nat)]) = [0] \<and>
   layers (delete_entry 7 (Seg 1) ''j'' (run [Set 0 Monolithic ''k'' (1::nat)])) = [7, 0] \<and>
   segments (run [Set 0 Monolithic ''k'' (1::nat)]) = [Monolithic] \<and>
   segments (delete_entry 7 (Seg 1) ''j'' (run [Set 0 Monolithic ''k'' (1::nat)])) =
     [Monolithic, Seg 1] \<and>
   map_of (topLevelCache (run [Set 0 Monolithic ''k'' (1::nat)])) (Seg 1) = None \<and>
   map_of (topLevelCache (delete_entry 7 (Seg 1) ''j'' (run [Set 0 Monolithic ''k'' (1::nat)])))
     (Seg 1) = Some [] \<and>
   get (Seg 1) ''k'' (run [Set 0 Monolithic ''k'' (1::nat)]) = Some 1 \<and>
   get (Seg 1) ''k'' (delete_entry 7 (Seg 1) ''j'' (run [Set 0 Monolithic ''k'' (1::nat)])) = None"
  by code_simp

text \<open>
  C4, amended. \<^verbatim>\<open>delete(layer, segment, key)\<close> removes the entry of the Raw Store for the
  layer, the segment and the key and leaves every other entry of the Raw Store as it is;
  when the entry is absent, no entry of the Raw Store changes. What \<^verbatim>\<open>has\<close> returns
  for any segment and any other key stays. The call creates the layer and the segment's
  map on it when they are missing, as \<^verbatim>\<open>_getLSData\<close> documents.
\<close>

theorem delete_entry_raw_store:
  "rawGet (delete_entry layer segment key st) layer segment key = None \<and>
   (\<forall>l s k. (l, s, k) \<noteq> (layer, segment, key) \<longrightarrow>
      rawGet (delete_entry layer segment key st) l s k = rawGet st l s k) \<and>
   (rawGet st layer segment key = None \<longrightarrow>
      rawGet (delete_entry layer segment key st) = rawGet st) \<and>
   (\<forall>s k. k \<noteq> key \<longrightarrow> has s k (delete_entry layer segment key st) = has s k st) \<and>
   layer \<in> fst ` set (data (delete_entry layer segment key st)) \<and>
   hasLSData (delete_entry layer segment key st) layer segment"
proof -
  have removed: "rawGet (delete_entry layer segment key st) layer segment key = None"
    by (simp add: rawGet_delete_entry)
  have others: "\<forall>l s k. (l, s, k) \<noteq> (layer, segment, key) \<longrightarrow>
      rawGet (delete_entry layer segment key st) l s k = rawGet st l s k"
    by (auto simp: rawGet_delete_entry)
  have absent: "rawGet st layer segment key = None \<longrightarrow>
      rawGet (delete_entry layer segment key st) = rawGet st"
    by (intro impI ext) (auto simp: rawGet_delete_entry)
  have keys: "\<forall>s k. k \<noteq> key \<longrightarrow> has s k (delete_entry layer segment key st) = has s k st"
    by (simp add: has_cacheGet cacheGet_delete_entry_other)
  have created: "hasLSData (delete_entry layer segment key st) layer segment"
    by (rule hasLSData_delete_entry)
  have layer: "layer \<in> fst ` set (data (delete_entry layer segment key st))"
    using created by (rule hasLSData_key)
  show ?thesis
    by (intro conjI removed others absent keys layer created)
qed

theorem delete_entry_raw_store_witness:
  "rawGet (run [Set 0 Monolithic ''k'' (1::nat)]) 7 (Seg 1) ''j'' = None \<and>
   rawGet (delete_entry 7 (Seg 1) ''j'' (run [Set 0 Monolithic ''k'' (1::nat)])) =
     rawGet (run [Set 0 Monolithic ''k'' (1::nat)]) \<and>
   rawGet (delete_entry 7 (Seg 1) ''j'' (run [Set 0 Monolithic ''k'' (1::nat)])) 0 Monolithic ''k'' = Some 1 \<and>
   has Monolithic ''k'' (delete_entry 7 (Seg 1) ''j'' (run [Set 0 Monolithic ''k'' (1::nat)])) =
     has Monolithic ''k'' (run [Set 0 Monolithic ''k'' (1::nat)]) \<and>
   hasLSData (delete_entry 7 (Seg 1) ''j'' (run [Set 0 Monolithic ''k'' (1::nat)])) 7 (Seg 1)"
proof -
  have a: "rawGet (run [Set 0 Monolithic ''k'' (1::nat)]) 7 (Seg 1) ''j'' = None"
    by code_simp
  have b: "rawGet (run [Set 0 Monolithic ''k'' (1::nat)]) 0 Monolithic ''k'' = Some 1"
    by code_simp
  show ?thesis
    using a b delete_entry_raw_store [of 7 "Seg 1" "''j''" "run [Set 0 Monolithic ''k'' (1::nat)]"]
    by simp
qed

subsection \<open>Segment isolation\<close>

text \<open>
  C5. A write for one segment should not change what another segment reads when that
  segment has its own value on an equal or higher layer. \<open>Seg 2\<close> has \<open>20\<close> on layer 0
  and the monolithic segment had \<open>11\<close> on layer 1 until \<^verbatim>\<open>deleteSegmentData(monolithic)\<close>,
  which leaves the caches of the other segments as they were: \<^verbatim>\<open>get(Seg 2, "k")\<close> still
  returns the deleted \<open>11\<close>. The write \<^verbatim>\<open>set(0, Seg 1, "k", 5)\<close> then changes it to \<open>20\<close>.
  Where the cache entry of the segment agrees with the Raw Store the write leaves what
  the segment reads (lemma \<open>segment_isolation_consistent\<close>).
\<close>

theorem set_changes_other_segment:
  "rawGet (run [Set 0 (Seg 2) ''k'' (20::nat), Set 1 Monolithic ''k'' 11,
                DeleteSegmentData Monolithic]) 0 (Seg 2) ''k'' = Some 20 \<and>
   get (Seg 2) ''k'' (run [Set 0 (Seg 2) ''k'' (20::nat), Set 1 Monolithic ''k'' 11,
                           DeleteSegmentData Monolithic]) = Some 11 \<and>
   get (Seg 2) ''k'' (set_entry 0 (Seg 1) ''k'' 5
      (run [Set 0 (Seg 2) ''k'' (20::nat), Set 1 Monolithic ''k'' 11,
            DeleteSegmentData Monolithic])) = Some 20"
  by code_simp

subsection \<open>deleteSegmentData\<close>

text \<open>
  C6, as stated, at a concrete input. After \<^verbatim>\<open>set(0, Seg 1, "j", 2)\<close>,
  \<^verbatim>\<open>set(0, monolithic, "k", 1)\<close> and \<^verbatim>\<open>delete(0, Seg 1, "j")\<close> the segment \<open>Seg 1\<close> is
  empty: its only map holds no entry. It is still registered and its cache map holds the
  value of \<open>k\<close> resolved through the monolithic segment. \<^verbatim>\<open>deleteSegmentData(Seg 1)\<close> is
  no no-op there: it removes the empty map, the cache map and the registration, and
  \<^verbatim>\<open>has(Seg 1, "k")\<close> turns from true to false.
\<close>

theorem deleteSegmentData_empty_segment_changes_state:
  "data (run [Set 0 (Seg 1) ''j'' (2::nat), Set 0 Monolithic ''k'' 1, Delete 0 (Seg 1) ''j'']) =
     [(0, [(Seg 1, []), (Monolithic, [(''k'', 1)])])] \<and>
   segments (run [Set 0 (Seg 1) ''j'' (2::nat), Set 0 Monolithic ''k'' 1,
                  Delete 0 (Seg 1) ''j'']) = [Seg 1, Monolithic] \<and>
   topLevelCache (run [Set 0 (Seg 1) ''j'' (2::nat), Set 0 Monolithic ''k'' 1,
                       Delete 0 (Seg 1) ''j'']) =
     [(Seg 1, [(''k'', 1)]), (Monolithic, [(''k'', 1)])] \<and>
   has (Seg 1) ''k'' (run [Set 0 (Seg 1) ''j'' (2::nat), Set 0 Monolithic ''k'' 1,
                           Delete 0 (Seg 1) ''j'']) \<and>
   data (deleteSegmentData (Seg 1)
      (run [Set 0 (Seg 1) ''j'' (2::nat), Set 0 Monolithic ''k'' 1, Delete 0 (Seg 1) ''j''])) =
     [(0, [(Monolithic, [(''k'', 1)])])] \<and>
   segments (deleteSegmentData (Seg 1)
      (run [Set 0 (Seg 1) ''j'' (2::nat), Set 0 Monolithic ''k'' 1, Delete 0 (Seg 1) ''j''])) =
     [Monolithic] \<and>
   topLevelCache (deleteSegmentData (Seg 1)
      (run [Set 0 (Seg 1) ''j'' (2::nat), Set 0 Monolithic ''k'' 1, Delete 0 (Seg 1) ''j''])) =
     [(Monolithic, [(''k'', 1)])] \<and>
   \<not> has (Seg 1) ''k'' (deleteSegmentData (Seg 1)
      (run [Set 0 (Seg 1) ''j'' (2::nat), Set 0 Monolithic ''k'' 1, Delete 0 (Seg 1) ''j''])) \<and>
   deleteSegmentData (Seg 1)
      (run [Set 0 (Seg 1) ''j'' (2::nat), Set 0 Monolithic ''k'' 1, Delete 0 (Seg 1) ''j'']) \<noteq>
     run [Set 0 (Seg 1) ''j'' (2::nat), Set 0 Monolithic ''k'' 1, Delete 0 (Seg 1) ''j'']"
  by code_simp

text \<open>
  C6, amended. \<^verbatim>\<open>deleteSegmentData(S)\<close> removes the map of \<open>S\<close> from every layer (the
  entries of the other segments stay), drops the cache map of \<open>S\<close> and removes \<open>S\<close> from
  the registered segments, so that \<^verbatim>\<open>has(S, key)\<close> is false for every key. A second call
  in a row changes nothing, and neither does a call for a segment that has no map on any
  layer, no cache map and no registration (an unknown segment, or one already cleared); a
  registered segment without entries is cleared like any other. In every state reached
  by the public operations the segment can be written again at once: after
  \<^verbatim>\<open>set(layer, S, key, v)\<close> the entry is in the Raw Store, \<^verbatim>\<open>has(S, key)\<close> is true and
  \<^verbatim>\<open>get(S, key)\<close> is the resolved value.
\<close>

theorem deleteSegmentData_clears:
  "(\<forall>lData \<in> snd ` set (data (deleteSegmentData segment st)). map_of lData segment = None) \<and>
   (\<forall>l s k. rawGet (deleteSegmentData segment st) l s k =
      (if s = segment then None else rawGet st l s k)) \<and>
   map_of (topLevelCache (deleteSegmentData segment st)) segment = None \<and>
   segment \<notin> set (segments (deleteSegmentData segment st)) \<and>
   (\<forall>key. \<not> has segment key (deleteSegmentData segment st)) \<and>
   deleteSegmentData segment (deleteSegmentData segment st) = deleteSegmentData segment st \<and>
   ((\<forall>lData \<in> snd ` set (data st). map_of lData segment = None) \<and>
    map_of (topLevelCache st) segment = None \<and> segment \<notin> set (segments st) \<longrightarrow>
      deleteSegmentData segment st = st) \<and>
   rawGet (set_entry layer segment key v (deleteSegmentData segment (run calls)))
      layer segment key = Some v \<and>
   has segment key (set_entry layer segment key v (deleteSegmentData segment (run calls))) \<and>
   get segment key (set_entry layer segment key v (deleteSegmentData segment (run calls))) =
     resolve_spec (set_entry layer segment key v (deleteSegmentData segment (run calls)))
       segment key"
proof -
  have absent: "\<forall>lData \<in> snd ` set (data (deleteSegmentData segment st)).
                  map_of lData segment = None"
    by (rule data_deleteSegmentData_absent)
  have frame: "\<forall>l s k. rawGet (deleteSegmentData segment st) l s k =
                  (if s = segment then None else rawGet st l s k)"
    by (simp add: rawGet_deleteSegmentData)
  have cache: "map_of (topLevelCache (deleteSegmentData segment st)) segment = None"
    by (simp add: deleteSegmentData_def delete_conv')
  then have nohas: "\<forall>key. \<not> has segment key (deleteSegmentData segment st)"
    by (simp add: has_def)
  have unreg: "segment \<notin> set (segments (deleteSegmentData segment st))"
    by (simp add: deleteSegmentData_def)
  have idem: "deleteSegmentData segment (deleteSegmentData segment st) =
              deleteSegmentData segment st"
    by (rule deleteSegmentData_idem)
  have unknown: "(\<forall>lData \<in> snd ` set (data st). map_of lData segment = None) \<and>
                 map_of (topLevelCache st) segment = None \<and> segment \<notin> set (segments st) \<longrightarrow>
                 deleteSegmentData segment st = st"
    using deleteSegmentData_unknown [of st segment] by blast
  have w: "wellformed (deleteSegmentData segment (run calls))"
    by (simp add: wellformed_deleteSegmentData wellformed_run)
  have raw: "rawGet (set_entry layer segment key v (deleteSegmentData segment (run calls)))
               layer segment key = Some v"
    by (simp add: rawGet_set_entry)
  have vis: "has segment key (set_entry layer segment key v (deleteSegmentData segment (run calls)))"
    and res: "get segment key (set_entry layer segment key v (deleteSegmentData segment (run calls))) =
      resolve_spec (set_entry layer segment key v (deleteSegmentData segment (run calls)))
        segment key"
    using set_entry_visible [OF w, of segment key layer v] by simp_all
  show ?thesis
    by (intro conjI absent frame cache unreg nohas idem unknown raw vis res)
qed

theorem deleteSegmentData_clears_witness:
  "data (run [Set 0 Monolithic ''k'' (1::nat)]) = [(0, [(Monolithic, [(''k'', 1)])])] \<and>
   map_of (topLevelCache (run [Set 0 Monolithic ''k'' (1::nat)])) (Seg 1) = None \<and>
   Seg 1 \<notin> set (segments (run [Set 0 Monolithic ''k'' (1::nat)])) \<and>
   deleteSegmentData (Seg 1) (run [Set 0 Monolithic ''k'' (1::nat)]) =
     run [Set 0 Monolithic ''k'' (1::nat)] \<and>
   rawGet (deleteSegmentData (Seg 1) (run [Set 0 Monolithic ''k'' (1::nat)])) 0 Monolithic ''k'' =
     rawGet (run [Set 0 Monolithic ''k'' (1::nat)]) 0 Monolithic ''k'' \<and>
   has (Seg 1) ''k'' (set_entry 0 (Seg 1) ''k'' 2
      (deleteSegmentData (Seg 1) (run [Set 0 (Seg 1) ''k'' (1::nat)])))"
proof -
  have d: "data (run [Set 0 Monolithic ''k'' (1::nat)]) = [(0, [(Monolithic, [(''k'', 1)])])]"
    by code_simp
  have c: "map_of (topLevelCache (run [Set 0 Monolithic ''k'' (1::nat)])) (Seg 1) = None"
    by code_simp
  have s: "Seg 1 \<notin> set (segments (run [Set 0 Monolithic ''k'' (1::nat)]))"
    by code_simp
  show ?thesis
    using d c s deleteSegmentData_clears [of "Seg 1" "run [Set 0 Monolithic ''k'' (1::nat)]"
        0 "''k''" 2 "[Set 0 (Seg 1) ''k'' (1::nat)]"]
    by simp
qed

subsection \<open>has and get\<close>

text \<open>
  C7. \<^verbatim>\<open>has(segment, key)\<close> is true exactly when the cache map of the segment itself has
  an entry for the key. A segment without a cache map has no key, while \<^verbatim>\<open>get\<close> reads
  the monolithic cache for it: after \<^verbatim>\<open>set(0, monolithic, "k", 1)\<close>, \<^verbatim>\<open>get(Seg 1, "k")\<close>
  is \<open>1\<close> and \<^verbatim>\<open>has(Seg 1, "k")\<close> is false.
\<close>

theorem has_segment_exact:
  "(has segment key st \<longleftrightarrow> cacheGet st segment key \<noteq> None) \<and>
   (map_of (topLevelCache st) segment = None \<longrightarrow>
      \<not> has segment key st \<and> get segment key st = cacheGet st Monolithic key) \<and>
   get (Seg 1) ''k'' (run [Set 0 Monolithic ''k'' (1::nat)]) = Some 1 \<and>
   \<not> has (Seg 1) ''k'' (run [Set 0 Monolithic ''k'' (1::nat)])"
proof -
  have "get (Seg 1) ''k'' (run [Set 0 Monolithic ''k'' (1::nat)]) = Some 1 \<and>
        \<not> has (Seg 1) ''k'' (run [Set 0 Monolithic ''k'' (1::nat)])"
    by code_simp
  then show ?thesis
    by (auto simp: has_def get_def cacheGet_def split: option.splits)
qed

theorem has_segment_exact_witness:
  "map_of (topLevelCache (run [Set 0 Monolithic ''k'' (1::nat)])) (Seg 1) = None \<and>
   \<not> has (Seg 1) ''k'' (run [Set 0 Monolithic ''k'' (1::nat)]) \<and>
   get (Seg 1) ''k'' (run [Set 0 Monolithic ''k'' (1::nat)]) =
     cacheGet (run [Set 0 Monolithic ''k'' (1::nat)]) Monolithic ''k''"
proof -
  have a: "map_of (topLevelCache (run [Set 0 Monolithic ''k'' (1::nat)])) (Seg 1) = None"
    by code_simp
  show ?thesis
    using a has_segment_exact [of "Seg 1" "''k''" "run [Set 0 Monolithic ''k'' (1::nat)]"]
    by blast
qed

text \<open>
  C10. \<^verbatim>\<open>get\<close> and \<^verbatim>\<open>has\<close> leave the whole state as it is, so a sequence of calls
  ending in one of them reaches the same state, and a repeated or later read of the same
  state returns the same result.
\<close>

theorem get_has_pure:
  "snd (exec (Get segment key) st) = st \<and>
   snd (exec (Has segment key) st) = st \<and>
   run (calls @ [Get segment key]) = run calls \<and>
   run (calls @ [Has segment key]) = run calls \<and>
   exec (Get segment key) (snd (exec (Get segment key) st)) = exec (Get segment key) st \<and>
   exec (Has segment key) (snd (exec (Has segment key) st)) = exec (Has segment key) st \<and>
   exec (Get segment key) (snd (exec (Has segment' key') st)) = exec (Get segment key) st \<and>
   exec (Has segment key) (snd (exec (Get segment' key') st)) = exec (Has segment key) st"
  by simp

subsection \<open>The layer list\<close>

text \<open>
  C8. In every state reached by the public operations the layer list holds exactly the
  layers of the Raw Store, in strictly descending order and so without duplicates: it is
  the sorted list of the Raw Store's layers. A new core has no layer, a write to a layer
  puts it into the list, and no operation removes a layer from the Raw Store.
\<close>

theorem layers_sorted_descending:
  "set (layers (run calls)) = fst ` set (data (run calls)) \<and>
   sorted_wrt (>) (layers (run calls)) \<and>
   distinct (layers (run calls)) \<and>
   layers (run calls) = sort_by reverseNumeric (map fst (data (run calls))) \<and>
   layers (run ([] :: ('k, 'v) call list)) = [] \<and>
   layer \<in> set (layers (run (calls @ [Set layer segment key v]))) \<and>
   fst ` set (data (run calls)) \<subseteq> fst ` set (data (run (calls @ [c])))"
proof -
  have w: "wellformed (run calls)" by (rule wellformed_run)
  then have l: "layers (run calls) = sort_by reverseNumeric (map fst (data (run calls)))"
    and d: "distinct (map fst (data (run calls)))"
    by (simp_all add: wellformed_def)
  have a: "set (layers (run calls)) = fst ` set (data (run calls))"
    by (simp add: l)
  have b: "sorted_wrt (>) (layers (run calls))"
    unfolding l using d by (rule strict_sorted_sort_by)
  have c: "distinct (layers (run calls))"
    by (simp add: l d)
  have e: "layer \<in> set (layers (run (calls @ [Set layer segment key v])))"
    using set_entry_registered [OF w, of segment layer key v] by simp
  have f: "fst ` set (data (run calls)) \<subseteq> fst ` set (data (run (calls @ [c])))"
    using keys_exec [OF w, of c] by simp
  have n: "layers (run ([] :: ('k, 'v) call list)) = []"
    by (simp add: newCore_def)
  show ?thesis
    using a b c l e f n by blast
qed

subsection \<open>Validators\<close>

text \<open>
  C9. After validators were registered for a key, registering validators for it again
  without the replace directive fails with an error and changes nothing, the core
  included: the validators of the first call stay.
\<close>

theorem setValidators_twice_fails:
  "fst (setValidators key vs2 False (snd (setValidators key vs1 replace st))) =
     Some DuplicateValidatorRegistration \<and>
   snd (setValidators key vs2 False (snd (setValidators key vs1 replace st))) =
     snd (setValidators key vs1 replace st) \<and>
   core (snd (setValidators key vs1 replace st)) = core st \<and>
   (fst (setValidators key vs1 replace st) = None \<longrightarrow>
      map_of (validators (snd (setValidators key vs2 False (snd (setValidators key vs1 replace st))))) key
        = Some vs1)"
  by (simp add: setValidators_def update_conv')

theorem setValidators_twice_fails_witness:
  "fst (setValidators ''test.fail'' [1::nat] False (newStorage :: (string, nat, nat) storage)) = None \<and>
   setValidators ''test.fail'' [2] False
      (snd (setValidators ''test.fail'' [1::nat] False (newStorage :: (string, nat, nat) storage))) =
     (Some DuplicateValidatorRegistration,
       \<lparr>validators = [(''test.fail'', [1])], core = newCore\<rparr>)"
proof -
  have a: "fst (setValidators ''test.fail'' [1::nat] False (newStorage :: (string, nat, nat) storage)) = None"
    by (simp add: setValidators_def newStorage_def)
  have b: "snd (setValidators ''test.fail'' [1::nat] False (newStorage :: (string, nat, nat) storage)) =
           \<lparr>validators = [(''test.fail'', [1])], core = newCore\<rparr>"
    by (simp add: setValidators_def newStorage_def)
  show ?thesis
    using a b setValidators_twice_fails [of "''test.fail''" "[2]" "[1::nat]" False
        "newStorage :: (string, nat, nat) storage"]
    by (simp add: prod_eq_iff)
qed

end
